theory Spec2Isabelle
  imports Main
begin

section \<open>Eliot action contexts across generator suspensions\<close>

text \<open>
  A shallow embedding of \<^verbatim>\<open>src/allmydata/util/eliotutil.py\<close>: the class
  \<^verbatim>\<open>_GeneratorContext\<close> (the registry of per-generator action stacks and the
  slot naming the running generator) and the decorator
  \<^verbatim>\<open>eliot_friendly_generator_function\<close> (the loop that steps a generator under
  its own stack). Python objects become values, the module-level singleton
  \<^verbatim>\<open>_the_generator_context\<close> and Eliot's \<^verbatim>\<open>_context\<close> become one
  record that every operation takes and returns, exceptions become values.
\<close>

subsection \<open>Stacks, exceptions and the global state\<close>

type_synonym action = string
type_synonym stack = "action list"

text \<open>
  The exceptions that occur: \<^verbatim>\<open>KeyError\<close> of a dictionary lookup (with the key,
  the identity of a generator object), \<^verbatim>\<open>TypeError\<close> of the generator protocol,
  and any other exception, which user code raises. \<^verbatim>\<open>StopIteration\<close> is not
  among them: it is a signal of its own below.
\<close>

datatype exn = KeyError nat | TypeError | Exception string

text \<open>
  The fields \<open>contexts\<close> and \<open>current_generator\<close> are the attributes
  \<^verbatim>\<open>_contexts\<close> and \<^verbatim>\<open>_current_generator\<close> of \<^verbatim>\<open>_GeneratorContext\<close>;
  a generator object is known by its identity, a natural number. \<open>main_stack\<close> is
  the stack of Eliot's execution context, \<open>messages\<close> what has been logged, each
  message type with the stack it was logged under.
\<close>

record state =
  main_stack :: stack
  contexts :: "nat \<rightharpoonup> stack"
  current_generator :: "nat option"
  messages :: "(string \<times> stack) list"

subsection \<open>\<^verbatim>\<open>_GeneratorContext\<close>\<close>

text \<open>
  \<^verbatim>\<open>get_stack\<close>: \<^verbatim>\<open>None\<close> when no generator is active, otherwise
  \<^verbatim>\<open>self._contexts[self._current_generator]\<close>, a lookup that raises
  \<^verbatim>\<open>KeyError\<close> for a missing key.
\<close>

definition get_stack :: "state \<Rightarrow> exn + stack option" where
  "get_stack s =
     (case current_generator s of
        None \<Rightarrow> Inr None
      | Some g \<Rightarrow>
          (case contexts s g of
             None \<Rightarrow> Inl (KeyError g)
           | Some st \<Rightarrow> Inr (Some st)))"

text \<open>
  Modelled from the spec: \<^verbatim>\<open>_context._get_stack\<close> of Eliot's execution context, the
  spec's \<^verbatim>\<open>ContextStackSource.get_current_stack\<close>, which is not part of this file.
  \<^verbatim>\<open>use_generator_context\<close> installs \<^verbatim>\<open>get_stack\<close> as the provider that the
  execution context consults; a result other than \<^verbatim>\<open>None\<close> pre-empts the ambient
  default, the main stack.
\<close>

definition execution_context_get_stack :: "state \<Rightarrow> exn + stack" where
  "execution_context_get_stack s =
     (case get_stack s of
        Inl e \<Rightarrow> Inl e
      | Inr None \<Rightarrow> Inr (main_stack s)
      | Inr (Some st) \<Rightarrow> Inr st)"

text \<open>
  \<^verbatim>\<open>init_stack\<close>: a copy of the current stack (\<^verbatim>\<open>list(...)\<close>) is stored under the
  generator. The assignment \<^verbatim>\<open>self._contexts[generator] = stack\<close> replaces an entry
  that is already there.
\<close>

definition init_stack :: "nat \<Rightarrow> state \<Rightarrow> exn + state" where
  "init_stack generator s =
     (case execution_context_get_stack s of
        Inl e \<Rightarrow> Inl e
      | Inr stack \<Rightarrow> Inr (s\<lparr>contexts := (contexts s)(generator \<mapsto> stack)\<rparr>))"

text \<open>
  \<^verbatim>\<open>context\<close>, a context manager: the body of the \<^verbatim>\<open>with\<close> block runs with the
  slot set to the generator, and the \<^verbatim>\<open>finally\<close> clause puts the previous value
  back whatever the body's result is, a value or an exception.
\<close>

definition context_scope :: "nat \<Rightarrow> (state \<Rightarrow> 'r \<times> state) \<Rightarrow> state \<Rightarrow> 'r \<times> state" where
  "context_scope generator body s =
     (let previous_generator = current_generator s;
          (r, s') = body (s\<lparr>current_generator := Some generator\<rparr>)
      in (r, s'\<lparr>current_generator := previous_generator\<rparr>))"

text \<open>
  Modelled from the spec: \<^verbatim>\<open>Message.log\<close> of Eliot, the spec's diagnostic emission
  through the ambient tracing API, which is not part of this file. The message is
  attributed to the stack that the execution context reports at that moment.
\<close>

definition message_log :: "string \<Rightarrow> state \<Rightarrow> exn + state" where
  "message_log message_type s =
     (case execution_context_get_stack s of
        Inl e \<Rightarrow> Inl e
      | Inr st \<Rightarrow> Inr (s\<lparr>messages := messages s @ [(message_type, st)]\<rparr>))"

subsection \<open>Generator objects\<close>

text \<open>
  What a resumption of a generator object gives: a yielded value, completion
  (\<^verbatim>\<open>StopIteration\<close>, which in Python 3 carries the value of the generator's
  \<^verbatim>\<open>return\<close> statement), or another exception. A value is \<open>None\<close> for Python's
  \<^verbatim>\<open>None\<close>.
\<close>

datatype 'v signal = Yield "'v option" | StopIteration "'v option" | Raise exn

text \<open>The two ways to resume a generator object: \<^verbatim>\<open>send(value)\<close> and \<^verbatim>\<open>throw(exc)\<close>.\<close>

datatype 'v resumption = Send "'v option" | Throw exn

text \<open>
  A generator object is given by what its two methods do: each runs the body up to the
  next \<^verbatim>\<open>yield\<close>, \<^verbatim>\<open>return\<close> or exception, reading and changing the global state,
  and leaves the object in a new state. Generators that never finish are included.
\<close>

codatatype 'v gen = Gen
  (send: "'v option \<Rightarrow> state \<Rightarrow> ('v signal \<times> 'v gen) \<times> state")
  (throw: "exn \<Rightarrow> state \<Rightarrow> ('v signal \<times> 'v gen) \<times> state")

text \<open>
  The pair of locals \<^verbatim>\<open>ok\<close> and \<^verbatim>\<open>value_in\<close> of \<^verbatim>\<open>wrapper\<close> is a
  \<open>resumption\<close>: \<open>Send v\<close> is \<^verbatim>\<open>ok = True, value_in = v\<close> and \<open>Throw e\<close> is
  \<^verbatim>\<open>ok = False, value_in = exc_info()\<close>. \<open>resume\<close> is
  \<^verbatim>\<open>gen.send(value_in) if ok else gen.throw(*value_in)\<close>.
\<close>

definition resume :: "'v gen \<Rightarrow> 'v resumption \<Rightarrow> state \<Rightarrow> ('v signal \<times> 'v gen) \<times> state" where
  "resume g pending = (case pending of Send v \<Rightarrow> send g v | Throw e \<Rightarrow> throw g e)"

subsection \<open>\<^verbatim>\<open>eliot_friendly_generator_function\<close>\<close>

text \<open>
  \<^verbatim>\<open>wrapper\<close> is itself a generator function, so a call of it runs none of its body
  and gives a generator object, which is in one of three states: \<open>Created h g\<close>, not yet
  resumed, where \<^verbatim>\<open>original(*a, **kw)\<close> will give the generator object of identity
  \<open>h\<close> and behaviour \<open>g\<close>; \<open>Suspended h g\<close>, at \<^verbatim>\<open>value_in = yield value_out\<close>
  with the local \<^verbatim>\<open>gen\<close>; \<open>Finished\<close>.
\<close>

datatype 'v wrapper_gen = Created nat "'v gen" | Suspended nat "'v gen" | Finished

text \<open>
  A call \<^verbatim>\<open>wrapper(*a, **kw)\<close> of the decorated function. The generator object that
  \<^verbatim>\<open>original(*a, **kw)\<close> creates gets its identity from the runtime, a new one at
  each call and not a function of the arguments; the call is given it as \<open>h\<close>.
\<close>

definition eliot_friendly_generator_function ::
    "('args \<Rightarrow> 'v gen) \<Rightarrow> nat \<Rightarrow> 'args \<Rightarrow> 'v wrapper_gen" where
  "eliot_friendly_generator_function original h a = Created h (original a)"

text \<open>
  The \<^verbatim>\<open>with\<close> block of the loop: the generator is stepped inside its context and,
  when that gave a value, \<^verbatim>\<open>Message.log(message_type=u"yielded")\<close> runs, still inside.
\<close>

definition guarded_step ::
    "nat \<Rightarrow> 'v gen \<Rightarrow> 'v resumption \<Rightarrow> state \<Rightarrow> ('v signal \<times> 'v gen) \<times> state" where
  "guarded_step h g pending =
     context_scope h (\<lambda>s1.
       case resume g pending s1 of
         ((Yield value_out, g'), s2) \<Rightarrow>
           (case message_log ''yielded'' s2 of
              Inl e \<Rightarrow> ((Raise e, g'), s2)
            | Inr s3 \<Rightarrow> ((Yield value_out, g'), s3))
       | ((StopIteration r, g'), s2) \<Rightarrow> ((StopIteration r, g'), s2)
       | ((Raise e, g'), s2) \<Rightarrow> ((Raise e, g'), s2))"

text \<open>
  One pass of \<^verbatim>\<open>while True\<close>, from its top to the \<^verbatim>\<open>yield\<close> or to the end of
  \<^verbatim>\<open>wrapper\<close>: \<^verbatim>\<open>except StopIteration: break\<close> leaves the loop and the function
  ends without a \<^verbatim>\<open>return\<close> statement, any other exception is not caught, and a
  value is yielded to the caller.
\<close>

definition wrapper_loop ::
    "nat \<Rightarrow> 'v gen \<Rightarrow> 'v resumption \<Rightarrow> state \<Rightarrow> ('v signal \<times> 'v wrapper_gen) \<times> state" where
  "wrapper_loop h g pending s =
     (case guarded_step h g pending s of
        ((Yield value_out, g'), s') \<Rightarrow> ((Yield value_out, Suspended h g'), s')
      | ((StopIteration r, g'), s') \<Rightarrow> ((StopIteration None, Finished), s')
      | ((Raise e, g'), s') \<Rightarrow> ((Raise e, Finished), s'))"

text \<open>
  A resumption of the generator object that \<^verbatim>\<open>wrapper\<close> gives. The first one runs
  \<^verbatim>\<open>ok = True\<close>, \<^verbatim>\<open>value_in = None\<close>, \<^verbatim>\<open>gen = original(*a, **kw)\<close> and
  \<^verbatim>\<open>init_stack(gen)\<close>, then enters the loop; a later one sets \<^verbatim>\<open>ok\<close> and
  \<^verbatim>\<open>value_in\<close> from the way it was resumed and goes round the loop. The other
  equations are Python's generator protocol: an exception thrown into a generator that
  has not started or has finished comes straight back, a value other than \<^verbatim>\<open>None\<close>
  cannot be sent to one that has not started, and a finished one signals
  \<^verbatim>\<open>StopIteration\<close>.
\<close>

fun wrapper_resume ::
    "'v wrapper_gen \<Rightarrow> 'v resumption \<Rightarrow> state \<Rightarrow> ('v signal \<times> 'v wrapper_gen) \<times> state" where
  "wrapper_resume (Created h g) (Send None) s =
     (case init_stack h s of
        Inl e \<Rightarrow> ((Raise e, Finished), s)
      | Inr s0 \<Rightarrow> wrapper_loop h g (Send None) s0)"
| "wrapper_resume (Created h g) (Send (Some v)) s = ((Raise TypeError, Created h g), s)"
| "wrapper_resume (Created h g) (Throw e) s = ((Raise e, Finished), s)"
| "wrapper_resume (Suspended h g) pending s = wrapper_loop h g pending s"
| "wrapper_resume Finished (Send v) s = ((StopIteration None, Finished), s)"
| "wrapper_resume Finished (Throw e) s = ((Raise e, Finished), s)"

subsection \<open>Vocabulary for the properties\<close>

text \<open>The state in which the body of the \<^verbatim>\<open>with\<close> block starts.\<close>

abbreviation activated :: "nat \<Rightarrow> state \<Rightarrow> state" where
  "activated h s \<equiv> s\<lparr>current_generator := Some h\<rparr>"

text \<open>
  What a pass of the loop does once the wrapped generator has been stepped, given the
  value the slot had before: the marker after a yield, the \<^verbatim>\<open>finally\<close> clause, and
  the way \<^verbatim>\<open>wrapper\<close> is left. With it a resumption of the wrapper is told in terms
  of the wrapped generator's own step (lemma \<open>wrapper_loop_finish_step\<close>).
\<close>

definition finish_step ::
    "nat \<Rightarrow> nat option \<Rightarrow> ('v signal \<times> 'v gen) \<times> state \<Rightarrow> ('v signal \<times> 'v wrapper_gen) \<times> state" where
  "finish_step h previous_generator stepped =
     (case stepped of
        ((Yield value_out, g'), s2) \<Rightarrow>
          (case message_log ''yielded'' s2 of
             Inl e \<Rightarrow> ((Raise e, Finished), s2\<lparr>current_generator := previous_generator\<rparr>)
           | Inr s3 \<Rightarrow>
               ((Yield value_out, Suspended h g'), s3\<lparr>current_generator := previous_generator\<rparr>))
      | ((StopIteration r, g'), s2) \<Rightarrow>
          ((StopIteration None, Finished), s2\<lparr>current_generator := previous_generator\<rparr>)
      | ((Raise e, g'), s2) \<Rightarrow>
          ((Raise e, Finished), s2\<lparr>current_generator := previous_generator\<rparr>))"

text \<open>
  The two ways in which a resumption reaches the loop: from the \<^verbatim>\<open>yield\<close>, or from
  the start of \<^verbatim>\<open>wrapper\<close> once \<^verbatim>\<open>init_stack\<close> has returned. \<open>t\<close> is the
  state at the top of the loop.
\<close>

definition enters_loop ::
    "'v wrapper_gen \<Rightarrow> 'v resumption \<Rightarrow> state \<Rightarrow> nat \<Rightarrow> 'v gen \<Rightarrow> state \<Rightarrow> bool" where
  "enters_loop w pending s h g t \<longleftrightarrow>
     (w = Suspended h g \<and> t = s) \<or>
     (w = Created h g \<and> pending = Send None \<and> init_stack h s = Inr t)"

text \<open>
  \<open>wrapper_yields w0 ins w\<close>: the wrapper \<open>w0\<close>, resumed with the inputs \<open>ins\<close> one
  after the other, in whatever states, has yielded a value at each and is now \<open>w\<close>.
  \<open>gen_yields g0 ins g\<close> is the same for a generator and its two methods: after
  \<open>k\<close> inputs, \<open>g\<close> is \<open>g0\<close> at its \<open>k\<close>-th suspension point.
\<close>

inductive wrapper_yields :: "'v wrapper_gen \<Rightarrow> 'v resumption list \<Rightarrow> 'v wrapper_gen \<Rightarrow> bool"
  for w0 :: "'v wrapper_gen" where
  wrapper_yields_none: "wrapper_yields w0 [] w0"
| wrapper_yields_more:
    "wrapper_yields w0 ins w \<Longrightarrow> wrapper_resume w pending s = ((Yield v, w'), s')
       \<Longrightarrow> wrapper_yields w0 (ins @ [pending]) w'"

inductive gen_yields :: "'v gen \<Rightarrow> 'v resumption list \<Rightarrow> 'v gen \<Rightarrow> bool"
  for g0 :: "'v gen" where
  gen_yields_none: "gen_yields g0 [] g0"
| gen_yields_more:
    "gen_yields g0 ins g \<Longrightarrow> resume g pending s = ((Yield v, g'), s')
       \<Longrightarrow> gen_yields g0 (ins @ [pending]) g'"

text \<open>
  A scheduler that forwards each yielded value straight back as the next input, for any
  object with the generator protocol. The loop ends when the object completes or raises,
  which an endless generator never does, so the number of resumptions is bounded by the
  first argument and \<open>None\<close> says that the bound was reached.
\<close>

fun drive_echo ::
    "('w \<Rightarrow> 'v resumption \<Rightarrow> state \<Rightarrow> ('v signal \<times> 'w) \<times> state) \<Rightarrow> nat \<Rightarrow> 'w \<Rightarrow> 'v resumption \<Rightarrow> state
       \<Rightarrow> ('v option list \<times> 'v signal \<times> state) option" where
  "drive_echo step 0 w pending s = None"
| "drive_echo step (Suc n) w pending s =
     (case step w pending s of
        ((Yield v, w'), s') \<Rightarrow>
          (case drive_echo step n w' (Send v) s' of
             None \<Rightarrow> None
           | Some (vs, fin, s'') \<Rightarrow> Some (v # vs, fin, s''))
      | ((StopIteration r, w'), s') \<Rightarrow> Some ([], StopIteration r, s')
      | ((Raise e, w'), s') \<Rightarrow> Some ([], Raise e, s'))"

text \<open>A state in which the execution context reports a stack, so that logging works.\<close>

definition reports_stack :: "state \<Rightarrow> bool" where
  "reports_stack s = (case execution_context_get_stack s of Inl e \<Rightarrow> False | Inr st \<Rightarrow> True)"

text \<open>
  A step of user code that leaves the slot as it found it and removes no entry of the
  registry.
\<close>

definition keeps_registered :: "state \<Rightarrow> state \<Rightarrow> bool" where
  "keeps_registered s s' \<longleftrightarrow>
     current_generator s' = current_generator s \<and>
     (\<forall>k. contexts s k \<noteq> None \<longrightarrow> contexts s' k \<noteq> None)"

text \<open>
  A generator that, resumed with \<open>pending\<close> and then with each value it yielded,
  yields the values \<open>vs\<close> in this order and then returns \<open>r\<close>, in every state in
  which the execution context reports a stack, keeping the registry's entries. What it
  does where the execution context raises is left open.
\<close>

inductive yields_then_returns ::
    "'v gen \<Rightarrow> 'v resumption \<Rightarrow> 'v option list \<Rightarrow> 'v option \<Rightarrow> bool" where
  completes:
    "\<forall>s. reports_stack s \<longrightarrow> fst (fst (resume g pending s)) = StopIteration r
       \<Longrightarrow> yields_then_returns g pending [] r"
| suspends:
    "\<forall>s. reports_stack s \<longrightarrow>
          fst (fst (resume g pending s)) = Yield v
          \<and> keeps_registered s (snd (resume g pending s))
          \<and> yields_then_returns (snd (fst (resume g pending s))) (Send v) vs r
       \<Longrightarrow> yields_then_returns g pending (v # vs) r"

subsection \<open>Example generators and states\<close>

text \<open>
  The generator of the spec's concrete scenario, by the number of resumptions it has had:
  it records \<open>A\<close> and yields \<open>1\<close>, records \<open>B\<close> and yields \<open>2\<close>, then returns
  \<open>done\<close>. It catches nothing: an exception of \<^verbatim>\<open>Message.log\<close> or one thrown into
  it leaves it.
\<close>

primcorec scenario :: "nat \<Rightarrow> string gen" where
  "send (scenario n) = (\<lambda>x s.
     if n = 0 then
       (case message_log ''A'' s of
          Inl e \<Rightarrow> ((Raise e, scenario 3), s)
        | Inr s' \<Rightarrow> ((Yield (Some ''1''), scenario 1), s'))
     else if n = 1 then
       (case message_log ''B'' s of
          Inl e \<Rightarrow> ((Raise e, scenario 3), s)
        | Inr s' \<Rightarrow> ((Yield (Some ''2''), scenario 2), s'))
     else if n = 2 then ((StopIteration (Some ''done''), scenario 3), s)
     else ((StopIteration None, scenario 3), s))"
| "throw (scenario n) = (\<lambda>e s. ((Raise e, scenario 3), s))"

text \<open>The generator that yields the given values, whatever it is sent, and returns \<open>r\<close>.\<close>

primcorec yielding :: "'v option list \<Rightarrow> 'v option \<Rightarrow> 'v gen" where
  "send (yielding vs r) = (\<lambda>x s.
     (case vs of
        [] \<Rightarrow> (StopIteration r, yielding [] None)
      | v # vs' \<Rightarrow> (Yield v, yielding vs' r), s))"
| "throw (yielding vs r) = (\<lambda>e s. ((Raise e, yielding [] None), s))"

text \<open>
  An endless generator: its \<open>k\<close>-th yield gives \<open>k\<close>, and an exception thrown into it
  at its \<open>k\<close>-th suspension point is caught there and answered with \<open>100 + k\<close>.
\<close>

primcorec counter :: "nat \<Rightarrow> nat gen" where
  "send (counter n) = (\<lambda>x s. ((Yield (Some (Suc n)), counter (Suc n)), s))"
| "throw (counter n) = (\<lambda>e s. ((Yield (Some (100 + n)), counter n), s))"

text \<open>The generator that raises the given exception as soon as it is resumed.\<close>

primcorec raising :: "exn \<Rightarrow> 'v gen" where
  "send (raising e) = (\<lambda>x s. ((Raise e, raising e), s))"
| "throw (raising e) = (\<lambda>e' s. ((Raise e', raising e), s))"

text \<open>No generator registered or active, and \<open>root\<close> on the main stack.\<close>

definition root_state :: state where
  "root_state =
     \<lparr>main_stack = [''root''], contexts = Map.empty, current_generator = None, messages = []\<rparr>"

text \<open>Generator 1 is active with the stack \<open>root\<close>; generator 2 is registered with \<open>other\<close>.\<close>

definition nested_state :: state where
  "nested_state =
     \<lparr>main_stack = [''main''], contexts = [1 \<mapsto> [''root''], 2 \<mapsto> [''other'']],
      current_generator = Some 1, messages = []\<rparr>"

text \<open>
  Generator 7 is registered with \<open>root\<close> and has yielded once; the main stack has become
  \<open>other\<close> since.
\<close>

definition counted_state :: state where
  "counted_state =
     \<lparr>main_stack = [''other''], contexts = [7 \<mapsto> [''root'']],
      current_generator = None, messages = [(''yielded'', [''root''])]\<rparr>"

text \<open>
  A generator that, at each resumption, logs \<open>before\<close>, resumes the wrapper it holds,
  logs \<open>after\<close> and yields: user code that drives a second decorated generator from
  inside a step of its own.
\<close>

primcorec outer :: "string wrapper_gen \<Rightarrow> string gen" where
  "send (outer w) = (\<lambda>x s.
     case message_log ''before'' s of
       Inl e \<Rightarrow> ((Raise e, outer w), s)
     | Inr s1 \<Rightarrow>
         (let r = wrapper_resume w (Send None) s1
          in case message_log ''after'' (snd r) of
               Inl e \<Rightarrow> ((Raise e, outer (snd (fst r))), snd r)
             | Inr s2 \<Rightarrow> ((Yield None, outer (snd (fst r))), s2)))"
| "throw (outer w) = (\<lambda>e s. ((Raise e, outer w), s))"

text \<open>No generator is active; generator 2 is registered with \<open>other\<close>.\<close>

definition outside_state :: state where
  "outside_state =
     \<lparr>main_stack = [''root''], contexts = [2 \<mapsto> [''other'']],
      current_generator = None, messages = []\<rparr>"

section \<open>Properties\<close>

subsection \<open>A resumption in terms of the wrapped generator's step\<close>

lemma wrapper_loop_finish_step:
  "wrapper_loop h g pending s =
     finish_step h (current_generator s) (resume g pending (activated h s))"
  by (simp add: wrapper_loop_def guarded_step_def context_scope_def finish_step_def
      split: prod.splits signal.splits sum.splits)

lemma finish_step_slot: "current_generator (snd (finish_step h previous stepped)) = previous"
  by (simp add: finish_step_def split: prod.splits signal.splits sum.splits)

lemma init_stack_slot: "init_stack h s = Inr t \<Longrightarrow> current_generator t = current_generator s"
  by (auto simp: init_stack_def split: sum.splits)

lemma wrapper_resume_slot:
  "current_generator (snd (wrapper_resume w pending s)) = current_generator s"
proof (cases w)
  case (Created h g)
  show ?thesis
  proof (cases pending)
    case (Send x)
    show ?thesis
    proof (cases x)
      case None
      show ?thesis
      proof (cases "init_stack h s")
        case (Inl e)
        with Created Send None show ?thesis by simp
      next
        case (Inr t)
        with Created Send None show ?thesis
          by (simp add: wrapper_loop_finish_step finish_step_slot init_stack_slot)
      qed
    next
      case (Some v)
      with Created Send show ?thesis by simp
    qed
  next
    case (Throw e)
    with Created show ?thesis by simp
  qed
next
  case (Suspended h g)
  then show ?thesis by (simp add: wrapper_loop_finish_step finish_step_slot)
next
  case Finished
  then show ?thesis by (cases pending) simp_all
qed

lemma enters_loop_resume:
  assumes "enters_loop w pending s h g t"
  shows "wrapper_resume w pending s =
           finish_step h (current_generator s) (resume g pending (activated h t))"
  using assms
  by (auto simp: enters_loop_def wrapper_loop_finish_step init_stack_slot)

lemma finish_step_contexts:
  "contexts (snd (finish_step h previous stepped)) = contexts (snd stepped)"
  by (auto simp: finish_step_def message_log_def split: prod.splits signal.splits sum.splits)

lemma init_stack_other: "init_stack h s = Inr t \<Longrightarrow> h \<noteq> f \<Longrightarrow> contexts t f = contexts s f"
  by (auto simp: init_stack_def split: sum.splits)

lemma enters_loop_slot: "enters_loop w pending s h g t \<Longrightarrow> current_generator t = current_generator s"
  by (auto simp: enters_loop_def init_stack_slot)

lemma enters_loop_other:
  "enters_loop w pending s h g t \<Longrightarrow> h \<noteq> f \<Longrightarrow> contexts t f = contexts s f"
  by (auto simp: enters_loop_def init_stack_other)

lemma finish_step_Yield:
  assumes "finish_step h previous stepped = ((Yield v, w'), s')"
  shows "\<exists>g' s2 s3. stepped = ((Yield v, g'), s2) \<and> message_log ''yielded'' s2 = Inr s3 \<and>
           w' = Suspended h g' \<and> s' = s3\<lparr>current_generator := previous\<rparr>"
  using assms
  by (auto simp: finish_step_def split: prod.splits signal.splits sum.splits)

lemma wrapper_resume_Yield:
  assumes "wrapper_resume w pending s = ((Yield v, w'), s')"
  shows "\<exists>h g t. enters_loop w pending s h g t"
proof (cases w)
  case (Created h g)
  show ?thesis
  proof (cases pending)
    case (Send x)
    show ?thesis
    proof (cases x)
      case None
      with assms Created Send show ?thesis
        by (cases "init_stack h s") (auto simp: enters_loop_def)
    next
      case (Some a)
      with assms Created Send show ?thesis by simp
    qed
  next
    case (Throw e)
    with assms Created show ?thesis by simp
  qed
next
  case (Suspended h g)
  then show ?thesis by (auto simp: enters_loop_def)
next
  case Finished
  with assms show ?thesis by (cases pending) simp_all
qed

lemma wrapper_resume_Yield_step:
  assumes "wrapper_resume w pending s = ((Yield v, w'), s')"
  shows "\<exists>h g t g' s2. enters_loop w pending s h g t \<and>
           resume g pending (activated h t) = ((Yield v, g'), s2) \<and> w' = Suspended h g'"
proof -
  from assms obtain h g t where enters: "enters_loop w pending s h g t"
    using wrapper_resume_Yield by blast
  with assms have "finish_step h (current_generator s) (resume g pending (activated h t)) =
      ((Yield v, w'), s')"
    by (simp add: enters_loop_resume)
  then obtain g' s2 where "resume g pending (activated h t) = ((Yield v, g'), s2)"
    and "w' = Suspended h g'"
    using finish_step_Yield by blast
  with enters show ?thesis by blast
qed

lemma wrapper_yields_gen_yields:
  assumes "wrapper_yields (Created h g0) ins w"
  shows "(ins = [] \<and> w = Created h g0) \<or> (ins \<noteq> [] \<and> (\<exists>g. w = Suspended h g \<and> gen_yields g0 ins g))"
  using assms
proof (induction rule: wrapper_yields.induct)
  case wrapper_yields_none
  show ?case by simp
next
  case (wrapper_yields_more ins w pending s v w' s')
  from wrapper_yields_more.hyps(2) obtain h' g t g' s2 where
    enters: "enters_loop w pending s h' g t"
    and stepped: "resume g pending (activated h' t) = ((Yield v, g'), s2)"
    and w': "w' = Suspended h' g'"
    using wrapper_resume_Yield_step by blast
  from wrapper_yields_more.IH show ?case
  proof
    assume "ins = [] \<and> w = Created h g0"
    with enters have "h' = h" "g = g0" by (auto simp: enters_loop_def)
    with stepped have "gen_yields g0 ([] @ [pending]) g'"
      using gen_yields_more [OF gen_yields_none] by blast
    with \<open>ins = [] \<and> w = Created h g0\<close> w' \<open>h' = h\<close> show ?thesis by simp
  next
    assume "ins \<noteq> [] \<and> (\<exists>g. w = Suspended h g \<and> gen_yields g0 ins g)"
    then obtain g1 where w: "w = Suspended h g1" and run: "gen_yields g0 ins g1" by blast
    with enters have "h' = h" "g = g1" by (auto simp: enters_loop_def)
    with stepped run have "gen_yields g0 (ins @ [pending]) g'"
      using gen_yields_more by blast
    with w' \<open>h' = h\<close> show ?thesis by simp
  qed
qed

lemma counted_first:
  "wrapper_resume (Created 7 (counter 0)) (Send None) root_state =
     ((Yield (Some 1), Suspended 7 (counter 1)),
      root_state\<lparr>contexts := [7 \<mapsto> [''root'']], messages := [(''yielded'', [''root''])]\<rparr>)"
  by (simp add: wrapper_loop_finish_step finish_step_def resume_def message_log_def init_stack_def
      execution_context_get_stack_def get_stack_def root_state_def)

lemma counter_gen_yields: "gen_yields (counter 0) [Send None, Send (Some 1)] (counter 2)"
proof -
  have "resume (counter 0) (Send None) root_state = ((Yield (Some 1), counter 1), root_state)"
    by (simp add: resume_def)
  from gen_yields_more [OF gen_yields_none this]
  have "gen_yields (counter 0) [Send None] (counter 1)" by simp
  moreover have "resume (counter 1) (Send (Some 1)) root_state = ((Yield (Some 2), counter 2), root_state)"
    by (simp add: resume_def numeral_2_eq_2)
  ultimately have "gen_yields (counter 0) ([Send None] @ [Send (Some 1)]) (counter 2)"
    by (rule gen_yields_more)
  then show ?thesis by simp
qed

lemma counted_second:
  "wrapper_resume (Suspended 7 (counter 1)) (Send (Some 1)) counted_state =
     ((Yield (Some 2), Suspended 7 (counter 2)),
      counted_state\<lparr>messages := [(''yielded'', [''root'']), (''yielded'', [''root''])]\<rparr>)"
  by (simp add: wrapper_loop_finish_step finish_step_def resume_def message_log_def
      execution_context_get_stack_def get_stack_def counted_state_def numeral_2_eq_2)

subsection \<open>The echo scheduler\<close>

lemma drive_echo_Yield:
  "step w pending s = ((Yield v, w'), s') \<Longrightarrow> drive_echo step n w' (Send v) s' = Some (vs, fin, s'')
     \<Longrightarrow> drive_echo step (Suc n) w pending s = Some (v # vs, fin, s'')"
  by simp

lemma drive_echo_StopIteration:
  "step w pending s = ((StopIteration r, w'), s')
     \<Longrightarrow> drive_echo step (Suc n) w pending s = Some ([], StopIteration r, s')"
  by simp

lemma reports_stack_kept: "reports_stack s \<Longrightarrow> keeps_registered s s' \<Longrightarrow> reports_stack s'"
  by (auto simp: reports_stack_def keeps_registered_def execution_context_get_stack_def
      get_stack_def split: option.splits)

lemma reports_stack_activated: "contexts s h \<noteq> None \<Longrightarrow> reports_stack (activated h s)"
  by (auto simp: reports_stack_def execution_context_get_stack_def get_stack_def)

lemma drive_echo_unwrapped:
  assumes "yields_then_returns g pending vs r" and "reports_stack s"
  shows "\<exists>s'. drive_echo resume (Suc (length vs)) g pending s = Some (vs, StopIteration r, s')"
  using assms
proof (induction arbitrary: s rule: yields_then_returns.induct)
  case (completes g pending r)
  then have "fst (fst (resume g pending s)) = StopIteration r" by blast
  then obtain g' s1 where "resume g pending s = ((StopIteration r, g'), s1)"
    by (metis fst_conv surj_pair)
  then show ?case
    using drive_echo_StopIteration [of resume g pending s r g' s1] by auto
next
  case (suspends g pending v vs r)
  let ?step = "resume g pending s"
  from suspends.IH suspends.prems have "fst (fst ?step) = Yield v" by blast
  then obtain g' s1 where step: "?step = ((Yield v, g'), s1)"
    by (metis fst_conv surj_pair)
  from suspends.IH suspends.prems have "keeps_registered s (snd ?step)" by blast
  with suspends.prems step have reports: "reports_stack s1"
    using reports_stack_kept by fastforce
  from suspends.IH suspends.prems
  have "\<forall>x. reports_stack x \<longrightarrow>
      (\<exists>s'. drive_echo resume (Suc (length vs)) (snd (fst ?step)) (Send v) x =
         Some (vs, StopIteration r, s'))"
    by blast
  then have "\<forall>x. reports_stack x \<longrightarrow>
      (\<exists>s'. drive_echo resume (Suc (length vs)) g' (Send v) x = Some (vs, StopIteration r, s'))"
    by (simp only: step fst_conv snd_conv simp_thms)
  with reports obtain s' where
    "drive_echo resume (Suc (length vs)) g' (Send v) s1 = Some (vs, StopIteration r, s')"
    by blast
  from drive_echo_Yield [of resume g pending s, OF step this] show ?case by auto
qed

lemma drive_echo_suspended:
  assumes "yields_then_returns g pending vs r" and "contexts s h \<noteq> None"
  shows "\<exists>s'. drive_echo wrapper_resume (Suc (length vs)) (Suspended h g) pending s =
           Some (vs, StopIteration None, s')"
  using assms
proof (induction arbitrary: s rule: yields_then_returns.induct)
  case (completes g pending r)
  from completes.prems have "reports_stack (activated h s)" by (rule reports_stack_activated)
  with completes.hyps have "fst (fst (resume g pending (activated h s))) = StopIteration r" by blast
  then obtain g' s1 where "resume g pending (activated h s) = ((StopIteration r, g'), s1)"
    by (metis fst_conv surj_pair)
  then have "wrapper_resume (Suspended h g) pending s =
      ((StopIteration None, Finished), s1\<lparr>current_generator := current_generator s\<rparr>)"
    by (simp add: wrapper_loop_finish_step finish_step_def)
  from drive_echo_StopIteration [of wrapper_resume "Suspended h g" pending s, OF this]
  show ?case by auto
next
  case (suspends g pending v vs r)
  let ?step = "resume g pending (activated h s)"
  from suspends.prems have reports: "reports_stack (activated h s)" by (rule reports_stack_activated)
  with suspends.IH have "fst (fst ?step) = Yield v" by blast
  then obtain g' s2 where step: "?step = ((Yield v, g'), s2)"
    by (metis fst_conv surj_pair)
  from suspends.IH reports have "keeps_registered (activated h s) (snd ?step)" by blast
  with step suspends.prems have slot: "current_generator s2 = Some h" and entry: "contexts s2 h \<noteq> None"
    by (auto simp: keeps_registered_def)
  from entry obtain S where S: "contexts s2 h = Some S" by auto
  let ?s3 = "s2\<lparr>messages := messages s2 @ [(''yielded'', S)], current_generator := current_generator s\<rparr>"
  have resumed: "wrapper_resume (Suspended h g) pending s = ((Yield v, Suspended h g'), ?s3)"
    using step slot S
    by (simp add: wrapper_loop_finish_step finish_step_def message_log_def
        execution_context_get_stack_def get_stack_def)
  have kept: "contexts ?s3 h \<noteq> None" using S by simp
  from suspends.IH reports
  have "\<forall>x. contexts x h \<noteq> None \<longrightarrow>
      (\<exists>s'. drive_echo wrapper_resume (Suc (length vs)) (Suspended h (snd (fst ?step))) (Send v) x =
         Some (vs, StopIteration None, s'))"
    by blast
  then have "\<forall>x. contexts x h \<noteq> None \<longrightarrow>
      (\<exists>s'. drive_echo wrapper_resume (Suc (length vs)) (Suspended h g') (Send v) x =
         Some (vs, StopIteration None, s'))"
    by (simp only: step fst_conv snd_conv simp_thms)
  with kept obtain s' where
    "drive_echo wrapper_resume (Suc (length vs)) (Suspended h g') (Send v) ?s3 =
       Some (vs, StopIteration None, s')"
    by blast
  from drive_echo_Yield [of wrapper_resume "Suspended h g" pending s, OF resumed this]
  show ?case by auto
qed

text \<open>
  What holds of the values: a generator that yields \<open>vs\<close> and returns \<open>r\<close>, decorated
  and driven by the echo scheduler from a state in which the execution context reports a
  stack, yields exactly \<open>vs\<close> in the same order within \<open>length vs + 1\<close> resumptions,
  as it does driven undecorated; the completion of the decorated one carries \<open>None\<close>,
  that of the undecorated one \<open>r\<close>.
\<close>

lemma drive_echo_values:
  assumes "yields_then_returns (original a) (Send None) vs r"
    and "execution_context_get_stack s = Inr S"
  shows "(\<exists>s'. drive_echo wrapper_resume (Suc (length vs))
                 (eliot_friendly_generator_function original h a) (Send None) s =
               Some (vs, StopIteration None, s')) \<and>
         (\<exists>s'. drive_echo resume (Suc (length vs)) (original a) (Send None) s =
               Some (vs, StopIteration r, s'))"
proof -
  let ?t = "s\<lparr>contexts := (contexts s)(h \<mapsto> S)\<rparr>"
  have init: "init_stack h s = Inr ?t"
    using assms(2) by (simp add: init_stack_def)
  have "contexts ?t h \<noteq> None" by simp
  with assms(1) obtain s' where
    "drive_echo wrapper_resume (Suc (length vs)) (Suspended h (original a)) (Send None) ?t =
       Some (vs, StopIteration None, s')"
    using drive_echo_suspended by blast
  then have "drive_echo wrapper_resume (Suc (length vs))
      (eliot_friendly_generator_function original h a) (Send None) s = Some (vs, StopIteration None, s')"
    using init by (simp add: eliot_friendly_generator_function_def)
  moreover have "reports_stack s" using assms(2) by (simp add: reports_stack_def)
  ultimately show ?thesis using drive_echo_unwrapped [OF assms(1)] by blast
qed

lemma scenario_yields_then_returns:
  "yields_then_returns (scenario 0) (Send None) [Some ''1'', Some ''2''] (Some ''done'')"
proof -
  have "yields_then_returns (scenario 2) (Send (Some ''2'')) [] (Some ''done'')"
    by (rule completes) (simp add: resume_def)
  then have "yields_then_returns (scenario 1) (Send (Some ''1'')) [Some ''2''] (Some ''done'')"
    by (intro suspends)
      (auto simp: resume_def keeps_registered_def reports_stack_def message_log_def
        split: sum.splits)
  then show ?thesis
    by (intro suspends)
      (auto simp: resume_def keeps_registered_def reports_stack_def message_log_def
        split: sum.splits)
qed

lemma yielding_yields_then_returns: "yields_then_returns (yielding vs r) (Send x) vs r"
proof (induction vs arbitrary: x)
  case Nil
  show ?case
    by (rule completes) (simp add: resume_def)
next
  case (Cons v vs)
  show ?case
    by (rule suspends) (simp add: resume_def keeps_registered_def Cons.IH)
qed

subsection \<open>Attribution\<close>

text \<open>
  Claim C1, as the code has it. The snapshot is taken when the wrapper is first resumed:
  if the execution context reports the stack \<open>S\<close> at that moment, the wrapped
  generator's code up to its first yield starts in a state where the execution context
  reports exactly \<open>S\<close>, and the resumption is that run followed by the rest of the pass.
  Calling the decorated function takes no snapshot: it has no access to the state.
\<close>

theorem attribution_at_first_resumption:
  assumes "execution_context_get_stack s = Inr S"
  shows "execution_context_get_stack (activated h (s\<lparr>contexts := (contexts s)(h \<mapsto> S)\<rparr>)) = Inr S \<and>
         wrapper_resume (eliot_friendly_generator_function original h a) (Send None) s =
           finish_step h (current_generator s)
             (send (original a) None (activated h (s\<lparr>contexts := (contexts s)(h \<mapsto> S)\<rparr>)))"
  using assms
  by (simp add: eliot_friendly_generator_function_def init_stack_def wrapper_loop_finish_step
      resume_def execution_context_get_stack_def get_stack_def)

theorem attribution_at_first_resumption_witness:
  "execution_context_get_stack (root_state\<lparr>main_stack := [''other'']\<rparr>) = Inr [''other''] \<and>
   messages (snd (wrapper_resume (eliot_friendly_generator_function (\<lambda>u::unit. scenario 0) 7 ())
                    (Send None) (root_state\<lparr>main_stack := [''other'']\<rparr>))) =
     [(''A'', [''other'']), (''yielded'', [''other''])]"
  using attribution_at_first_resumption
    [of "root_state\<lparr>main_stack := [''other'']\<rparr>" "[''other'']" 7 "\<lambda>u::unit. scenario 0" "()"]
  by (simp add: root_state_def execution_context_get_stack_def get_stack_def finish_step_def
      message_log_def)

text \<open>
  Claim C1 as stated fails: the decorated function is called while the stack is
  \<open>root\<close>, its result is first resumed while the stack is \<open>other\<close>, and the
  message that the generator logs before its first yield is recorded under \<open>other\<close>.
\<close>

theorem attribution_wrap_time_counterexample:
  "execution_context_get_stack root_state = Inr [''root''] \<and>
   messages (snd (wrapper_resume (eliot_friendly_generator_function (\<lambda>u::unit. scenario 0) 7 ())
                    (Send None) (root_state\<lparr>main_stack := [''other'']\<rparr>))) =
     [(''A'', [''other'']), (''yielded'', [''other''])]"
  by (simp add: eliot_friendly_generator_function_def root_state_def init_stack_def
      execution_context_get_stack_def get_stack_def wrapper_loop_def guarded_step_def
      context_scope_def resume_def  message_log_def)

subsection \<open>Values\<close>


subsection \<open>Nesting\<close>

text \<open>
  Claim C3. While generator \<open>f\<close> is active with the snapshot \<open>S\<close>, a resumption of
  the wrapper of another generator \<open>h\<close>, whose step leaves the entry of \<open>f\<close> alone,
  ends with the slot naming \<open>f\<close> again, whether the inner generator yielded, completed
  or raised, and the context query gives \<open>S\<close>, the snapshot of \<open>f\<close>.
\<close>

theorem nesting_isolation:
  assumes active: "current_generator s = Some f" and snapshot: "contexts s f = Some S"
    and inner: "enters_loop w pending s h g t" and distinct: "h \<noteq> f"
    and untouched: "contexts (snd (resume g pending (activated h t))) f = contexts t f"
  shows "current_generator (snd (wrapper_resume w pending s)) = Some f \<and>
         get_stack (snd (wrapper_resume w pending s)) = Inr (Some S)"
proof -
  have slot: "current_generator (snd (wrapper_resume w pending s)) = Some f"
    using active by (simp add: wrapper_resume_slot)
  have "contexts (snd (wrapper_resume w pending s)) f = contexts t f"
    using inner untouched by (simp add: enters_loop_resume finish_step_contexts)
  also have "\<dots> = Some S"
    using inner distinct snapshot by (simp add: enters_loop_other)
  finally show ?thesis using slot by (simp add: get_stack_def)
qed

theorem nesting_isolation_witness:
  "get_stack nested_state = Inr (Some [''root'']) \<and>
   messages (snd (wrapper_resume (Suspended 2 (scenario 1)) (Send None) nested_state)) =
     [(''B'', [''other'']), (''yielded'', [''other''])] \<and>
   current_generator (snd (wrapper_resume (Suspended 2 (scenario 1)) (Send None) nested_state)) = Some 1 \<and>
   get_stack (snd (wrapper_resume (Suspended 2 (scenario 1)) (Send None) nested_state)) = Inr (Some [''root'']) \<and>
   messages (snd (wrapper_resume (Created 1 (outer (Suspended 2 (scenario 1)))) (Send None) outside_state)) =
     [(''before'', [''root'']), (''B'', [''other'']), (''yielded'', [''other'']),
      (''after'', [''root'']), (''yielded'', [''root''])]"
proof -
  have run: "messages (snd (wrapper_resume (Created 1 (outer (Suspended 2 (scenario 1)))) (Send None)
      outside_state)) =
     [(''before'', [''root'']), (''B'', [''other'']), (''yielded'', [''other'']),
      (''after'', [''root'']), (''yielded'', [''root''])]"
    by (simp add: outside_state_def init_stack_def execution_context_get_stack_def get_stack_def
        wrapper_loop_finish_step finish_step_def resume_def  message_log_def Let_def)
  have enters: "enters_loop (Suspended 2 (scenario 1)) (Send None) nested_state 2 (scenario 1) nested_state"
    by (simp add: enters_loop_def)
  have untouched: "contexts (snd (resume (scenario 1) (Send None) (activated 2 nested_state))) 1 =
      contexts nested_state 1"
    by (simp add: resume_def  message_log_def nested_state_def
        execution_context_get_stack_def get_stack_def)
  have "current_generator nested_state = Some 1" "contexts nested_state 1 = Some [''root'']" "(2::nat) \<noteq> 1"
    by (simp_all add: nested_state_def)
  from nesting_isolation [OF this(1) this(2) enters this(3) untouched] run
  show ?thesis
    by (simp add: wrapper_loop_finish_step finish_step_def resume_def  message_log_def
        nested_state_def execution_context_get_stack_def get_stack_def)
qed

subsection \<open>Failures\<close>

text \<open>
  Claim C4. When the step of the wrapped generator raises \<open>e\<close>, the resumption of the
  wrapper raises the same \<open>e\<close> and the wrapper is finished; the state is the one the
  generator left, with the slot put back to the value it had before the resumption. The
  slot has that value after every resumption, however it ends.
\<close>

theorem failure_propagation:
  assumes "enters_loop w pending s h g t"
    and "fst (fst (resume g pending (activated h t))) = Raise e"
  shows "wrapper_resume w pending s =
           ((Raise e, Finished),
            (snd (resume g pending (activated h t)))\<lparr>current_generator := current_generator s\<rparr>) \<and>
         (\<forall>w' pending' s'. current_generator (snd (wrapper_resume w' pending' s')) = current_generator s')"
  using assms
  by (auto simp: enters_loop_resume finish_step_def wrapper_resume_slot
      split: prod.splits signal.splits)

theorem failure_propagation_witness:
  "fst (wrapper_resume (Suspended 7 (scenario 1)) (Throw (Exception ''boom'')) counted_state) =
     (Raise (Exception ''boom''), Finished) \<and>
   current_generator
     (snd (wrapper_resume (Suspended 7 (scenario 1)) (Throw (Exception ''boom'')) counted_state)) = None \<and>
   wrapper_resume (Created 7 (raising (Exception ''boom'') :: string gen)) (Send None) root_state =
     ((Raise (Exception ''boom''), Finished), root_state\<lparr>contexts := [7 \<mapsto> [''root'']]\<rparr>)"
proof -
  have enters: "enters_loop (Suspended 7 (scenario 1)) (Throw (Exception ''boom'')) counted_state
      7 (scenario 1) counted_state"
    by (simp add: enters_loop_def)
  have raised: "fst (fst (resume (scenario 1) (Throw (Exception ''boom'')) (activated 7 counted_state))) =
      Raise (Exception ''boom'')"
    by (simp add: resume_def)
  from failure_propagation [OF enters raised]
  have thrown: "wrapper_resume (Suspended 7 (scenario 1)) (Throw (Exception ''boom'')) counted_state =
      ((Raise (Exception ''boom''), Finished),
       (snd (resume (scenario 1) (Throw (Exception ''boom'')) (activated 7 counted_state)))
         \<lparr>current_generator := current_generator counted_state\<rparr>)"
    by (rule conjunct1)
  let ?t = "root_state\<lparr>contexts := [7 \<mapsto> [''root'']]\<rparr>"
  have enters': "enters_loop (Created 7 (raising (Exception ''boom'') :: string gen)) (Send None)
      root_state 7 (raising (Exception ''boom'')) ?t"
    by (simp add: enters_loop_def init_stack_def execution_context_get_stack_def get_stack_def
        root_state_def)
  have raised': "fst (fst (resume (raising (Exception ''boom'') :: string gen) (Send None)
      (activated 7 ?t))) = Raise (Exception ''boom'')"
    by (simp add: resume_def)
  from failure_propagation [OF enters' raised']
  have first: "wrapper_resume (Created 7 (raising (Exception ''boom'') :: string gen)) (Send None)
      root_state =
      ((Raise (Exception ''boom''), Finished),
       (snd (resume (raising (Exception ''boom'') :: string gen) (Send None) (activated 7 ?t)))
         \<lparr>current_generator := current_generator root_state\<rparr>)"
    by (rule conjunct1)
  have "(snd (resume (raising (Exception ''boom'') :: string gen) (Send None) (activated 7 ?t)))
      \<lparr>current_generator := current_generator root_state\<rparr> = ?t"
    by (simp add: resume_def root_state_def)
  with first thrown show ?thesis
    by (simp add: counted_state_def)
qed

text \<open>
  Claim C5. When the wrapper of a generator has been resumed with some inputs, one or
  more, and has yielded a value at each, it holds the generator at the suspension point
  that the generator reaches when it is resumed with the same inputs by the matching
  methods and yields at each: after \<open>k\<close> yields of the wrapper, the \<open>k\<close>-th
  suspension point. An exception thrown into the wrapper next is thrown into the generator
  there, and a value sent next is sent to it there.
\<close>

theorem error_forwarding:
  assumes "wrapper_yields (Created h g0) ins w" and "ins \<noteq> []"
  shows "\<exists>g. w = Suspended h g \<and> gen_yields g0 ins g \<and>
           (\<forall>e u. wrapper_resume w (Throw e) u =
                    finish_step h (current_generator u) (throw g e (activated h u))) \<and>
           (\<forall>x u. wrapper_resume w (Send x) u =
                    finish_step h (current_generator u) (send g x (activated h u)))"
proof -
  from wrapper_yields_gen_yields [OF assms(1)] assms(2)
  obtain g where w: "w = Suspended h g" and run: "gen_yields g0 ins g" by blast
  have "\<forall>e u. wrapper_resume w (Throw e) u =
      finish_step h (current_generator u) (throw g e (activated h u))"
    using w by (simp add: wrapper_loop_finish_step resume_def)
  moreover have "\<forall>x u. wrapper_resume w (Send x) u =
      finish_step h (current_generator u) (send g x (activated h u))"
    using w by (simp add: wrapper_loop_finish_step resume_def)
  ultimately show ?thesis using w run by blast
qed

theorem error_forwarding_witness:
  "wrapper_yields (Created 7 (counter 0)) [Send None, Send (Some 1)] (Suspended 7 (counter 2)) \<and>
   gen_yields (counter 0) [Send None, Send (Some 1)] (counter 2) \<and>
   fst (fst (wrapper_resume (Suspended 7 (counter 2)) (Throw (Exception ''boom'')) counted_state)) =
     Yield (Some 102)"
proof -
  from wrapper_yields_more [OF wrapper_yields_none counted_first]
  have "wrapper_yields (Created 7 (counter 0)) [Send None] (Suspended 7 (counter 1))" by simp
  from wrapper_yields_more [OF this counted_second]
  have run: "wrapper_yields (Created 7 (counter 0)) [Send None, Send (Some 1)] (Suspended 7 (counter 2))"
    by simp
  from error_forwarding [OF run]
  obtain g where "Suspended 7 (counter 2) = Suspended 7 g"
    and "\<forall>e u. wrapper_resume (Suspended 7 (counter 2)) (Throw e) u =
           finish_step 7 (current_generator u) (throw g e (activated 7 u))"
    by blast
  then have "wrapper_resume (Suspended 7 (counter 2)) (Throw (Exception ''boom'')) counted_state =
      finish_step 7 (current_generator counted_state)
        (throw (counter 2) (Exception ''boom'') (activated 7 counted_state))"
    by simp
  then have "fst (fst (wrapper_resume (Suspended 7 (counter 2)) (Throw (Exception ''boom'')) counted_state)) =
     Yield (Some 102)"
    by (simp add: finish_step_def message_log_def execution_context_get_stack_def
        get_stack_def counted_state_def)
  with run counter_gen_yields show ?thesis by simp
qed

subsection \<open>The registry\<close>

text \<open>
  Claim C6, as the code has it. A call of \<^verbatim>\<open>init_stack\<close> made while the execution
  context reports the stack \<open>S\<close> stores \<open>S\<close> under the generator, whether or not the
  generator had an entry, and a second call right after it succeeds as well and leaves the
  state as it is.
\<close>

theorem init_stack_replaces:
  assumes "execution_context_get_stack s = Inr S"
  shows "init_stack h s = Inr (s\<lparr>contexts := (contexts s)(h \<mapsto> S)\<rparr>) \<and>
         init_stack h (s\<lparr>contexts := (contexts s)(h \<mapsto> S)\<rparr>) =
           Inr (s\<lparr>contexts := (contexts s)(h \<mapsto> S)\<rparr>)"
  using assms
  by (auto simp: init_stack_def execution_context_get_stack_def get_stack_def
      split: option.splits sum.splits)

theorem init_stack_replaces_witness:
  "execution_context_get_stack counted_state = Inr [''other''] \<and>
   contexts counted_state 7 = Some [''root''] \<and>
   init_stack 7 counted_state = Inr (counted_state\<lparr>contexts := [7 \<mapsto> [''other'']]\<rparr>)"
  using init_stack_replaces [of counted_state "[''other'']" 7]
  by (simp add: counted_state_def execution_context_get_stack_def get_stack_def)

text \<open>
  Claim C6 as stated fails: a second call for the same generator returns, without an
  error, and when the stack has changed in between it replaces the snapshot.
\<close>

theorem init_stack_twice_counterexample:
  "init_stack 7 root_state = Inr (root_state\<lparr>contexts := [7 \<mapsto> [''root'']]\<rparr>) \<and>
   init_stack 7 (root_state\<lparr>contexts := [7 \<mapsto> [''root'']]\<rparr>) =
     Inr (root_state\<lparr>contexts := [7 \<mapsto> [''root'']]\<rparr>) \<and>
   init_stack 7 (root_state\<lparr>contexts := [7 \<mapsto> [''root'']], main_stack := [''other'']\<rparr>) =
     Inr (root_state\<lparr>contexts := [7 \<mapsto> [''other'']], main_stack := [''other'']\<rparr>)"
  by (simp add: init_stack_def execution_context_get_stack_def get_stack_def root_state_def)

text \<open>
  Claim C7. \<^verbatim>\<open>get_stack\<close> returns \<open>None\<close> exactly when no generator is active; with
  an active generator that is registered it returns the registered stack; with an active
  generator that is not registered it raises \<^verbatim>\<open>KeyError\<close>, and so do the execution
  context's query, logging and \<^verbatim>\<open>init_stack\<close>, and a wrapper first resumed in such a
  state raises it to its caller.
\<close>

theorem get_stack_cases:
  "(get_stack s = Inr None \<longleftrightarrow> current_generator s = None) \<and>
   (current_generator s = Some g \<and> contexts s g = Some st \<longrightarrow> get_stack s = Inr (Some st)) \<and>
   (current_generator s = Some g \<and> contexts s g = None \<longrightarrow>
      get_stack s = Inl (KeyError g) \<and> execution_context_get_stack s = Inl (KeyError g) \<and>
      message_log tag s = Inl (KeyError g) \<and> init_stack h s = Inl (KeyError g) \<and>
      wrapper_resume (Created h gen) (Send None) s = ((Raise (KeyError g), Finished), s))"
  by (auto simp: get_stack_def execution_context_get_stack_def message_log_def init_stack_def
      split: option.splits)

theorem get_stack_cases_witness:
  "get_stack root_state = Inr None \<and>
   get_stack nested_state = Inr (Some [''root'']) \<and>
   get_stack (activated 3 nested_state) = Inl (KeyError 3) \<and>
   fst (wrapper_resume (Created 4 (scenario 0)) (Send None) (activated 3 nested_state)) =
     (Raise (KeyError 3), Finished)"
  using get_stack_cases [of root_state 0 "[]" "''''" 0 "scenario 0"]
    get_stack_cases [of nested_state 1 "[''root'']" "''''" 0 "scenario 0"]
    get_stack_cases [of "activated 3 nested_state" 3 "[]" "''''" 4 "scenario 0"]
  by (simp add: root_state_def nested_state_def)

subsection \<open>The marker\<close>

text \<open>
  Claim C8. When the step of the wrapped generator \<open>h\<close> yields, leaving the slot on
  \<open>h\<close> and \<open>h\<close> registered with the stack \<open>S\<close>, the resumption of the wrapper adds
  exactly one message to those the step left, the marker \<open>yielded\<close> under \<open>S\<close>; when
  the step completes or raises, it adds none.
\<close>

theorem diagnostic_marker:
  assumes "enters_loop w pending s h g t"
    and "resume g pending (activated h t) = ((sig, g'), s2)"
  shows "(sig = Yield v \<and> current_generator s2 = Some h \<and> contexts s2 h = Some S \<longrightarrow>
            fst (wrapper_resume w pending s) = (Yield v, Suspended h g') \<and>
            messages (snd (wrapper_resume w pending s)) = messages s2 @ [(''yielded'', S)]) \<and>
         ((\<forall>v. sig \<noteq> Yield v) \<longrightarrow>
            messages (snd (wrapper_resume w pending s)) = messages s2)"
  using assms
  by (cases sig)
    (auto simp: enters_loop_resume finish_step_def message_log_def
      execution_context_get_stack_def get_stack_def)

theorem diagnostic_marker_witness:
  "messages (snd (wrapper_resume (Suspended 7 (scenario 1)) (Send None) counted_state)) =
     [(''yielded'', [''root'']), (''B'', [''root'']), (''yielded'', [''root''])] \<and>
   execution_context_get_stack (snd (wrapper_resume (Suspended 7 (scenario 1)) (Send None) counted_state)) =
     Inr [''other''] \<and>
   messages (snd (wrapper_resume (Suspended 7 (scenario 2)) (Send None) counted_state)) =
     [(''yielded'', [''root''])] \<and>
   messages (snd (wrapper_resume (Created 7 (scenario 0)) (Send None) root_state)) =
     [(''A'', [''root'']), (''yielded'', [''root''])]"
proof -
  let ?t = "root_state\<lparr>contexts := [7 \<mapsto> [''root'']]\<rparr>"
  have e0: "enters_loop (Created 7 (scenario 0)) (Send None) root_state 7 (scenario 0) ?t"
    by (simp add: enters_loop_def init_stack_def execution_context_get_stack_def get_stack_def
        root_state_def)
  have r0: "resume (scenario 0) (Send None) (activated 7 ?t) =
      ((Yield (Some ''1''), scenario 1), (activated 7 ?t)\<lparr>messages := [(''A'', [''root''])]\<rparr>)"
    by (simp add: resume_def  message_log_def execution_context_get_stack_def
        get_stack_def root_state_def)
  have m0: "messages (snd (wrapper_resume (Created 7 (scenario 0)) (Send None) root_state)) =
      [(''A'', [''root'']), (''yielded'', [''root''])]"
    using diagnostic_marker [OF e0 r0, of "Some ''1''" "[''root'']"]
    by (simp add: root_state_def)
  let ?s2 = "(activated 7 counted_state)\<lparr>messages := [(''yielded'', [''root'']), (''B'', [''root''])]\<rparr>"
  have e1: "enters_loop (Suspended 7 (scenario 1)) (Send None) counted_state 7 (scenario 1) counted_state"
    by (simp add: enters_loop_def)
  have r1: "resume (scenario 1) (Send None) (activated 7 counted_state) =
      ((Yield (Some ''2''), scenario 2), ?s2)"
    by (simp add: resume_def  message_log_def execution_context_get_stack_def
        get_stack_def counted_state_def)
  have e2: "enters_loop (Suspended 7 (scenario 2)) (Send None) counted_state 7 (scenario 2) counted_state"
    by (simp add: enters_loop_def)
  have r2: "resume (scenario 2) (Send None) (activated 7 counted_state) =
      ((StopIteration (Some ''done''), scenario 3), activated 7 counted_state)"
    by (simp add: resume_def)
  have m1: "messages (snd (wrapper_resume (Suspended 7 (scenario 1)) (Send None) counted_state)) =
      messages ?s2 @ [(''yielded'', [''root''])]"
    using diagnostic_marker [OF e1 r1, of "Some ''2''" "[''root'']"]
    by (simp add: counted_state_def)
  have m2: "messages (snd (wrapper_resume (Suspended 7 (scenario 2)) (Send None) counted_state)) =
      messages (activated 7 counted_state)"
    using diagnostic_marker [OF e2 r2] by simp
  have "wrapper_resume (Suspended 7 (scenario 1)) (Send None) counted_state =
      finish_step 7 (current_generator counted_state) ((Yield (Some ''2''), scenario 2), ?s2)"
    by (simp only: wrapper_resume.simps wrapper_loop_finish_step r1)
  then have "execution_context_get_stack
      (snd (wrapper_resume (Suspended 7 (scenario 1)) (Send None) counted_state)) = Inr [''other'']"
    by (simp add: finish_step_def message_log_def execution_context_get_stack_def get_stack_def
        counted_state_def)
  with m0 m1 m2 show ?thesis by (simp add: counted_state_def)
qed

text \<open>
  Claim C9, as the code has it. The marker is hardwired: the decorator takes the generator
  function and nothing else, and every resumption of a wrapper that yields a value has
  emitted the marker: the messages it leaves are those that the step of the wrapped
  generator left and, after them, exactly one marker \<open>yielded\<close>, under the stack that
  the execution context reported when the step ended.
\<close>

theorem marker_unconditional:
  assumes "wrapper_resume w pending s = ((Yield v, w'), s')"
  shows "\<exists>h g t g' s2 st. enters_loop w pending s h g t \<and>
           resume g pending (activated h t) = ((Yield v, g'), s2) \<and>
           execution_context_get_stack s2 = Inr st \<and>
           messages s' = messages s2 @ [(''yielded'', st)]"
proof -
  from assms obtain h g t where enters: "enters_loop w pending s h g t"
    using wrapper_resume_Yield by blast
  with assms have "finish_step h (current_generator s) (resume g pending (activated h t)) =
      ((Yield v, w'), s')"
    by (simp add: enters_loop_resume)
  then obtain g' s2 s3 where stepped: "resume g pending (activated h t) = ((Yield v, g'), s2)"
    and logged: "message_log ''yielded'' s2 = Inr s3"
    and s': "s' = s3\<lparr>current_generator := current_generator s\<rparr>"
    using finish_step_Yield by blast
  from logged obtain st where "execution_context_get_stack s2 = Inr st"
    and "s3 = s2\<lparr>messages := messages s2 @ [(''yielded'', st)]\<rparr>"
    by (auto simp: message_log_def split: sum.splits)
  with s' have "execution_context_get_stack s2 = Inr st \<and>
      messages s' = messages s2 @ [(''yielded'', st)]"
    by simp
  with enters stepped show ?thesis by blast
qed

theorem marker_unconditional_witness:
  "wrapper_resume (Suspended 7 (counter 1)) (Send (Some 1)) counted_state =
     ((Yield (Some 2), Suspended 7 (counter 2)),
      counted_state\<lparr>messages := [(''yielded'', [''root'']), (''yielded'', [''root''])]\<rparr>) \<and>
   messages (snd (resume (counter 1) (Send (Some 1)) (activated 7 counted_state))) =
     [(''yielded'', [''root''])] \<and>
   messages (snd (wrapper_resume (Suspended 7 (counter 1)) (Send (Some 1)) counted_state)) =
     messages (snd (resume (counter 1) (Send (Some 1)) (activated 7 counted_state))) @
       [(''yielded'', [''root''])]"
proof -
  from marker_unconditional [OF counted_second]
  obtain h g t g' s2 st where
    enters: "enters_loop (Suspended 7 (counter 1)) (Send (Some 1)) counted_state h g t"
    and stepped: "resume g (Send (Some 1)) (activated h t) = ((Yield (Some 2), g'), s2)"
    and stack: "execution_context_get_stack s2 = Inr st"
    and logged: "messages (counted_state\<lparr>messages := [(''yielded'', [''root'']), (''yielded'', [''root''])]\<rparr>) =
        messages s2 @ [(''yielded'', st)]"
    by blast
  from enters have "h = 7" "g = counter 1" "t = counted_state"
    by (auto simp: enters_loop_def)
  with stepped have s2: "s2 = snd (resume (counter 1) (Send (Some 1)) (activated 7 counted_state))"
    by simp
  have left: "messages (snd (resume (counter 1) (Send (Some 1)) (activated 7 counted_state))) =
      [(''yielded'', [''root''])]"
    by (simp add: resume_def counted_state_def)
  from logged s2 left have st: "st = [''root'']" by simp
  have w: "snd (wrapper_resume (Suspended 7 (counter 1)) (Send (Some 1)) counted_state) =
      counted_state\<lparr>messages := [(''yielded'', [''root'']), (''yielded'', [''root''])]\<rparr>"
    by (simp only: counted_second snd_conv)
  have appended: "messages (snd (wrapper_resume (Suspended 7 (counter 1)) (Send (Some 1)) counted_state)) =
     messages (snd (resume (counter 1) (Send (Some 1)) (activated 7 counted_state))) @
       [(''yielded'', [''root''])]"
    using logged [unfolded s2 st] unfolding w .
  show ?thesis
    by (intro conjI) (rule counted_second, rule left, rule appended)
qed

text \<open>
  Claim C9 as stated fails: the decorator has no option to set, and the first resumption
  of the decorated scenario, which yields, logs the marker.
\<close>

theorem marker_option_counterexample:
  "fst (wrapper_resume (eliot_friendly_generator_function (\<lambda>u::unit. scenario 0) 7 ()) (Send None) root_state) =
     (Yield (Some ''1''), Suspended 7 (scenario 1)) \<and>
   messages (snd (wrapper_resume (eliot_friendly_generator_function (\<lambda>u::unit. scenario 0) 7 ()) (Send None) root_state)) =
     [(''A'', [''root'']), (''yielded'', [''root''])]"
  by (simp add: eliot_friendly_generator_function_def root_state_def init_stack_def
      execution_context_get_stack_def get_stack_def wrapper_loop_finish_step finish_step_def
      resume_def  message_log_def)

end
